theory Spec2Isabelle
  imports Main "HOL-Library.Word" "HOL-Library.Sublist"
begin

section \<open>JavaScript strings\<close>

text \<open>
  A JavaScript string is a sequence of UTF-16 code units. A code unit is modelled by its
  number, so every real string is a list of numbers below 65536; the theorems below hold
  for all lists, hence for all strings.
\<close>

type_synonym jsstring = "nat list"

definition js :: "string \<Rightarrow> jsstring" where
  "js s = map of_char s"

text \<open>
  The characters matched by \<^verbatim>\<open>\s\<close> in a regular expression and stripped by
  \<^verbatim>\<open>String.prototype.trim\<close>: white space and line terminators.
\<close>

definition isSpace :: "nat \<Rightarrow> bool" where
  "isSpace c \<longleftrightarrow>
     c = 9 \<or> c = 10 \<or> c = 11 \<or> c = 12 \<or> c = 13 \<or> c = 32 \<or> c = 160 \<or> c = 5760 \<or>
     (8192 \<le> c \<and> c \<le> 8202) \<or> c = 8232 \<or> c = 8233 \<or> c = 8239 \<or> c = 8287 \<or>
     c = 12288 \<or> c = 65279"

definition trim :: "jsstring \<Rightarrow> jsstring" where
  "trim s = rev (dropWhile isSpace (rev (dropWhile isSpace s)))"

text \<open>\<^verbatim>\<open>text.split(/\r?\n/)\<close>: cut at every line feed, taking a carriage return
  right before it into the separator.\<close>

fun splitLines :: "jsstring \<Rightarrow> jsstring list" where
  "splitLines [] = [[]]"
| "splitLines [c] = (if c = 10 then [[], []] else [[c]])"
| "splitLines (c # d # cs) =
     (if c = 10 then [] # splitLines (d # cs)
      else if c = 13 \<and> d = 10 then [] # splitLines cs
      else (case splitLines (d # cs) of
              [] \<Rightarrow> [[c]]
            | l # ls \<Rightarrow> (c # l) # ls))"

text \<open>\<^verbatim>\<open>lines.join('\n')\<close>\<close>

fun joinLines :: "jsstring list \<Rightarrow> jsstring" where
  "joinLines [] = []"
| "joinLines [l] = l"
| "joinLines (l # k # ls) = l @ 10 # joinLines (k # ls)"

text \<open>\<^verbatim>\<open>xs.slice(s, e)\<close>, negative indices counting from the end.\<close>

definition sliceIdx :: "int \<Rightarrow> nat \<Rightarrow> nat" where
  "sliceIdx k len = (if k < 0 then nat (max (int len + k) 0) else min (nat k) len)"

definition slice :: "'a list \<Rightarrow> int \<Rightarrow> int \<Rightarrow> 'a list" where
  "slice xs s e =
     (let a = sliceIdx s (length xs); b = sliceIdx e (length xs)
      in take (b - a) (drop a xs))"

text \<open>\<^verbatim>\<open>hay.indexOf(needle)\<close>: the first position where the needle starts, or -1.\<close>

fun indexOfFrom :: "jsstring \<Rightarrow> jsstring \<Rightarrow> nat \<Rightarrow> int" where
  "indexOfFrom needle [] k = (if needle = [] then int k else -1)"
| "indexOfFrom needle (c # cs) k =
     (if prefix needle (c # cs) then int k else indexOfFrom needle cs (k + 1))"

definition indexOf :: "jsstring \<Rightarrow> jsstring \<Rightarrow> int" where
  "indexOf hay needle = indexOfFrom needle hay 0"

section \<open>The diff engine: computeChangeHints (extension.ts)\<close>

record removal =
  anchor :: int
  count :: nat

record move =
  start :: int
  end' :: int
  fromStart :: int
  fromEnd :: int

record hints =
  added :: "(int \<times> int) list"
  removed :: "removal list"
  moved :: "move list"

text \<open>The table \<^verbatim>\<open>dp\<close> is a \<^verbatim>\<open>Uint16Array\<close> of \<open>(n+1)*(m+1)\<close> cells, zero at first,
  addressed by \<^verbatim>\<open>idx(i, j) = i * W + j\<close>. A store keeps the value modulo \<open>2^16\<close>.\<close>

definition idx :: "nat \<Rightarrow> nat \<Rightarrow> nat \<Rightarrow> nat" where
  "idx W i j = i * W + j"

text \<open>The inner loop \<^verbatim>\<open>for (j = m - 1; j >= 0; j--)\<close>; the counter is \<open>j + 1\<close>.\<close>

fun fillRow ::
  "jsstring list \<Rightarrow> jsstring list \<Rightarrow> nat \<Rightarrow> nat \<Rightarrow> nat \<Rightarrow> 16 word list \<Rightarrow> 16 word list" where
  "fillRow A B W i 0 dp = dp"
| "fillRow A B W i (Suc j) dp =
     fillRow A B W i j
       (dp[idx W i j :=
          (if A ! i = B ! j then dp ! idx W (i + 1) (j + 1) + 1
           else max (dp ! idx W (i + 1) j) (dp ! idx W i (j + 1)))])"

text \<open>The outer loop \<^verbatim>\<open>for (i = n - 1; i >= 0; i--)\<close>; the counter is \<open>i + 1\<close>.\<close>

fun fillTable ::
  "jsstring list \<Rightarrow> jsstring list \<Rightarrow> nat \<Rightarrow> nat \<Rightarrow> nat \<Rightarrow> 16 word list \<Rightarrow> 16 word list" where
  "fillTable A B W 0 m dp = dp"
| "fillTable A B W (Suc i) m dp = fillTable A B W i m (fillRow A B W i m dp)"

definition lcsTable :: "jsstring list \<Rightarrow> jsstring list \<Rightarrow> 16 word list" where
  "lcsTable A B =
     (let n = length A; m = length B; W = m + 1
      in fillTable A B W n m (replicate ((n + 1) * (m + 1)) 0))"

text \<open>The state of the walk: the two cursors, the start of the open added run (-1 when
  none is open), the pending deletion count, and the two result lists.\<close>

record walk =
  wi :: nat
  wj :: nat
  addStart :: int
  delCount :: nat
  wadded :: "(int \<times> int) list"
  wremoved :: "removal list"

function walkLoop ::
  "jsstring list \<Rightarrow> jsstring list \<Rightarrow> 16 word list \<Rightarrow> walk \<Rightarrow> walk" where
  "walkLoop A B dp w =
     (if wi w < length A \<and> wj w < length B then
        (if A ! wi w = B ! wj w then
           walkLoop A B dp
             \<lparr>wi = wi w + 1, wj = wj w + 1, addStart = -1, delCount = 0,
              wadded = (if addStart w \<noteq> -1
                        then wadded w @ [(addStart w, int (wj w) - 1)] else wadded w),
              wremoved = (if delCount w \<noteq> 0
                          then wremoved w @ [\<lparr>anchor = int (wj w), count = delCount w\<rparr>]
                          else wremoved w)\<rparr>
         else if dp ! idx (length B + 1) (wi w + 1) (wj w)
                  \<ge> dp ! idx (length B + 1) (wi w) (wj w + 1) then
           walkLoop A B dp (w\<lparr>delCount := delCount w + 1, wi := wi w + 1\<rparr>)
         else
           walkLoop A B dp
             (w\<lparr>addStart := (if addStart w = -1 then int (wj w) else addStart w),
                wj := wj w + 1\<rparr>))
      else w)"
  by pat_completeness auto
termination
  by (relation "measure (\<lambda>(A, B, dp, w). (length A - wi w) + (length B - wj w))") auto

declare walkLoop.simps [simp del]

text \<open>The branch of the \<^verbatim>\<open>if\<close> chain that the line counts select.\<close>

datatype branch = OldEmpty | NewEmpty | General | Neither

definition diffBranch :: "nat \<Rightarrow> nat \<Rightarrow> branch" where
  "diffBranch n m =
     (if n = 0 \<and> m > 0 then OldEmpty
      else if m = 0 \<and> n > 0 then NewEmpty
      else if m > 0 then General
      else Neither)"

definition generalCase :: "jsstring list \<Rightarrow> jsstring list \<Rightarrow> (int \<times> int) list \<times> removal list" where
  "generalCase A B =
     (let m = length B;
          w = walkLoop A B (lcsTable A B)
                \<lparr>wi = 0, wj = 0, addStart = -1, delCount = 0, wadded = [], wremoved = []\<rparr>;
          added1 = (if addStart w \<noteq> -1 then wadded w @ [(addStart w, int m - 1)] else wadded w);
          removed1 = (if delCount w \<noteq> 0
                      then wremoved w @ [\<lparr>anchor = max 0 (int m - 1), count = delCount w\<rparr>]
                      else wremoved w)
      in (added1, removed1))"

definition spans :: "jsstring list \<Rightarrow> jsstring list \<Rightarrow> (int \<times> int) list \<times> removal list" where
  "spans A B =
     (case diffBranch (length A) (length B) of
        OldEmpty \<Rightarrow> ([(0, int (length B) - 1)], [])
      | NewEmpty \<Rightarrow> ([], [])
      | General \<Rightarrow> generalCase A B
      | Neither \<Rightarrow> ([], []))"

text \<open>\<^verbatim>\<open>oldOffsets\<close>: 0, then the offset after every line feed of the old text.\<close>

fun offsetsFrom :: "jsstring \<Rightarrow> nat \<Rightarrow> nat list" where
  "offsetsFrom [] k = []"
| "offsetsFrom (c # cs) k = (if c = 10 then (k + 1) # offsetsFrom cs (k + 1) else offsetsFrom cs (k + 1))"

definition oldOffsets :: "jsstring \<Rightarrow> nat list" where
  "oldOffsets oldText = 0 # offsetsFrom oldText 0"

text \<open>
  The binary search of \<^verbatim>\<open>offsetToLine\<close>. \<^verbatim>\<open>(lo + hi) >>> 1\<close> takes the sum modulo
  \<open>2^32\<close> first, so the middle is between the bounds only while the sum stays below
  \<open>2^32\<close>; the loop is therefore partial, \<open>None\<close> meaning that it does not return. A read
  past the end of the array is \<^verbatim>\<open>undefined\<close>, whose comparison is false.
\<close>

partial_function (option) offsetSearch ::
  "nat list \<Rightarrow> nat \<Rightarrow> int \<Rightarrow> int \<Rightarrow> nat \<Rightarrow> nat option" where
  "offsetSearch offs off lo hi ans =
     (if lo \<le> hi then
        (let mid = ((lo + hi) mod 2 ^ 32) div 2 in
         if nat mid < length offs \<and> offs ! nat mid \<le> off
         then offsetSearch offs off (mid + 1) hi (nat mid)
         else offsetSearch offs off lo (mid - 1) ans)
      else Some ans)"

declare offsetSearch.simps [code]

definition offsetToLine :: "nat list \<Rightarrow> nat \<Rightarrow> nat option" where
  "offsetToLine offs off = offsetSearch offs off 0 (int (length offs) - 1) 0"

text \<open>The loop over the added spans; \<open>None\<close> when a search does not return.\<close>

fun movedLoop ::
  "jsstring \<Rightarrow> jsstring list \<Rightarrow> nat list \<Rightarrow> (int \<times> int) list \<Rightarrow> move list \<Rightarrow> move list option" where
  "movedLoop oldText B offs [] mv = Some mv"
| "movedLoop oldText B offs ((s, e) # rest) mv =
     (let block = joinLines (slice B s (e + 1));
          trimmed = filter (\<lambda>c. \<not> isSpace c) block
      in if trimmed = [] then movedLoop oldText B offs rest mv
         else
           (let foundAt = indexOf oldText block
            in if foundAt \<ge> 0 then
                 (case offsetToLine offs (nat foundAt) of
                    None \<Rightarrow> None
                  | Some from0 \<Rightarrow>
                      (let from1 = int from0 + (e - s)
                       in if \<bar>int from0 - s\<bar> > 1
                          then movedLoop oldText B offs rest
                                 (mv @ [\<lparr>start = s, end' = e,
                                          fromStart = int from0, fromEnd = from1\<rparr>])
                          else movedLoop oldText B offs rest mv))
               else movedLoop oldText B offs rest mv))"

definition computeChangeHints :: "jsstring \<Rightarrow> jsstring \<Rightarrow> hints option" where
  "computeChangeHints oldText newText =
     (let A = splitLines oldText; B = splitLines newText;
          n = length A; m = length B;
          (added0, removed0) = spans A B
      in map_option (\<lambda>mv. \<lparr>added = added0, removed = removed0, moved = mv\<rparr>)
           (if added0 \<noteq> [] \<and> n > 0 \<and> m > 0
            then movedLoop oldText B (oldOffsets oldText) added0 []
            else Some []))"

section \<open>The utterance reconciler: transcribeStream (model.ts)\<close>

text \<open>
  The promise body of \<^verbatim>\<open>transcribeStream\<close> from the moment the socket is open. The
  variables of the closure are the fields of the session; the calls it makes on its
  surroundings (\<^verbatim>\<open>resolve\<close>, \<^verbatim>\<open>reject\<close>, \<^verbatim>\<open>connection.close\<close>, \<^verbatim>\<open>onInterim\<close>) are
  logged in it. Time is the number of milliseconds since the socket opened;
  \<open>idleTimer\<close> holds the time at which the pending timeout is due, \<open>None\<close> when no
  timeout is pending.
\<close>

datatype outcome = Resolved jsstring | Rejected jsstring

record session =
  finalTranscript :: jsstring
  settled :: bool
  utterance :: jsstring
  lastTxt :: jsstring
  committed :: jsstring
  idleTimer :: "nat option"
  clock :: nat
  outcomes :: "outcome list"
  closeCalls :: nat
  interims :: "jsstring list"

text \<open>
  The configured trailing silence as the handler reads it, \<^verbatim>\<open>Number(...)\<close> of the
  setting: a whole number of milliseconds (the extension's own command stores a string
  of digits converted to a number) or \<^verbatim>\<open>NaN\<close> (a setting that is not numeric). A value
  with a fractional part is floating point and is left out. \<^verbatim>\<open>Math.max\<close> and \<^verbatim>\<open>+\<close>
  give \<^verbatim>\<open>NaN\<close> as soon as one operand is \<^verbatim>\<open>NaN\<close>.
\<close>

datatype jsnumber = NaN | Num int

fun mathMax :: "jsnumber \<Rightarrow> jsnumber \<Rightarrow> jsnumber" where
  "mathMax (Num a) (Num b) = Num (max a b)"
| "mathMax _ _ = NaN"

fun jsPlus :: "jsnumber \<Rightarrow> jsnumber \<Rightarrow> jsnumber" where
  "jsPlus (Num a) (Num b) = Num (a + b)"
| "jsPlus _ _ = NaN"

record config =
  trailingSilenceMs :: jsnumber
  hasOnInterim :: bool

definition session0 :: session where
  "session0 =
     \<lparr>finalTranscript = [], settled = False, utterance = [], lastTxt = [], committed = [],
      idleTimer = None, clock = 0, outcomes = [], closeCalls = 0, interims = []\<rparr>"

definition safeResolve :: "jsstring \<Rightarrow> session \<Rightarrow> session" where
  "safeResolve txt s =
     (if settled s then s
      else s\<lparr>settled := True, closeCalls := closeCalls s + 1,
             outcomes := outcomes s @ [Resolved txt]\<rparr>)"

definition safeReject :: "jsstring \<Rightarrow> session \<Rightarrow> session" where
  "safeReject err s =
     (if settled s then s
      else s\<lparr>settled := True, closeCalls := closeCalls s + 1,
             outcomes := outcomes s @ [Rejected err]\<rparr>)"

definition trailingMsCfg :: "config \<Rightarrow> jsnumber" where
  "trailingMsCfg cfg = mathMax (Num 100) (trailingSilenceMs cfg)"

definition idleDelay :: "config \<Rightarrow> jsnumber" where
  "idleDelay cfg = mathMax (Num 1200) (jsPlus (trailingMsCfg cfg) (Num 200))"

text \<open>
  The delay that the runtime's \<^verbatim>\<open>setTimeout\<close> gives a timeout: the runtime is the
  host's, the repository only calls it. A delay that is not between 1 and
  \<open>TIMEOUT_MAX = 2^31 - 1\<close>, \<^verbatim>\<open>NaN\<close> included, is replaced by 1.
\<close>

definition TIMEOUT_MAX :: int where
  "TIMEOUT_MAX = 2147483647"

fun timeoutDelay :: "jsnumber \<Rightarrow> nat" where
  "timeoutDelay (Num after) = (if 1 \<le> after \<and> after \<le> TIMEOUT_MAX then nat after else 1)"
| "timeoutDelay NaN = 1"

text \<open>\<^verbatim>\<open>resetIdle\<close>: the pending timeout, if any, is cleared and a new one is set.\<close>

definition resetIdle :: "config \<Rightarrow> session \<Rightarrow> session" where
  "resetIdle cfg s = s\<lparr>idleTimer := Some (clock s + timeoutDelay (idleDelay cfg))\<rparr>"

text \<open>The callback of the idle timeout.\<close>

definition idleFire :: "session \<Rightarrow> session" where
  "idleFire s =
     (if \<not> settled s \<and> trim (utterance s) \<noteq> []
      then safeResolve (trim (utterance s)) (s\<lparr>finalTranscript := trim (utterance s)\<rparr>)
      else s)"

text \<open>The loop \<^verbatim>\<open>for (i = max; i > 0; i--)\<close> of \<^verbatim>\<open>appendWithOverlap\<close>, returning \<open>k\<close>.\<close>

fun overlapLoop :: "jsstring \<Rightarrow> jsstring \<Rightarrow> nat \<Rightarrow> nat" where
  "overlapLoop base next 0 = 0"
| "overlapLoop base next (Suc i) =
     (if suffix (take (Suc i) next) base then Suc i else overlapLoop base next i)"

definition appendWithOverlap :: "jsstring \<Rightarrow> jsstring \<Rightarrow> jsstring" where
  "appendWithOverlap base next =
     (if base = [] then next
      else (let mx = min (length base) (length next);
                k = overlapLoop base next mx
            in base @ drop k next))"

text \<open>The handler of a \<^verbatim>\<open>Transcript\<close> message with transcript \<open>raw\<close> and the two flags.\<close>

definition onTranscript :: "config \<Rightarrow> jsstring \<Rightarrow> bool \<Rightarrow> bool \<Rightarrow> session \<Rightarrow> session" where
  "onTranscript cfg raw isFinal isSpeechFinal s =
     (let txt = trim raw in
      if txt = [] then s
      else
        (let s1 = (if isFinal then
                     (let c = (if committed s \<noteq> [] then appendWithOverlap (committed s) txt
                               else txt)
                      in s\<lparr>committed := c, lastTxt := [], utterance := c\<rparr>)
                   else
                     s\<lparr>utterance := (if committed s \<noteq> []
                                      then (if txt \<noteq> [] then committed s @ [32] @ txt
                                            else committed s)
                                      else txt),
                        lastTxt := txt\<rparr>);
             s2 = resetIdle cfg s1
         in if isSpeechFinal then
              safeResolve (trim (utterance s2)) (s2\<lparr>finalTranscript := trim (utterance s2)\<rparr>)
            else if hasOnInterim cfg then s2\<lparr>interims := interims s2 @ [utterance s2]\<rparr>
            else s2))"

text \<open>The handler of \<^verbatim>\<open>Close\<close>.\<close>

definition onClose :: "session \<Rightarrow> session" where
  "onClose s =
     (if \<not> settled s
      then safeResolve (if finalTranscript s \<noteq> [] then finalTranscript s else []) s
      else s)"

text \<open>Time passing: the pending timeout fires once its due time is reached.\<close>

definition elapse :: "nat \<Rightarrow> session \<Rightarrow> session" where
  "elapse d s =
     (case idleTimer s of
        None \<Rightarrow> s\<lparr>clock := clock s + d\<rparr>
      | Some due \<Rightarrow>
          (if due \<le> clock s + d
           then (idleFire (s\<lparr>idleTimer := None\<rparr>))\<lparr>clock := clock s + d\<rparr>
           else s\<lparr>clock := clock s + d\<rparr>))"

text \<open>
  What can happen to an open session: a transcript message, the socket closing, a socket
  error, an error or the end of the audio input (the latter only sends \<^verbatim>\<open>Finalize\<close>),
  and time passing.
\<close>

datatype event =
  Transcript jsstring bool bool
| Close
| Error jsstring
| InputError jsstring
| InputEnd
| Elapse nat

fun step :: "config \<Rightarrow> session \<Rightarrow> event \<Rightarrow> session" where
  "step cfg s (Transcript raw isFinal isSpeechFinal) = onTranscript cfg raw isFinal isSpeechFinal s"
| "step cfg s Close = onClose s"
| "step cfg s (Error e) = safeReject e s"
| "step cfg s (InputError e) = safeReject e s"
| "step cfg s InputEnd = s"
| "step cfg s (Elapse d) = elapse d s"

definition run :: "config \<Rightarrow> session \<Rightarrow> event list \<Rightarrow> session" where
  "run cfg s evs = foldl (step cfg) s evs"

definition config0 :: config where
  "config0 = \<lparr>trailingSilenceMs = Num 1000, hasOnInterim = True\<rparr>"

section \<open>Apply and visualize: replaceDocumentWithHighlight (extension.ts)\<close>

text \<open>
  The editor is the host's: the repository only calls it. Of the host the model keeps
  what the function uses: the text of the document, its lines (the host cuts a document
  at every line feed, carriage return, or carriage return followed by line feed), the
  decoration types that were created and not yet disposed, each with the decorations set
  on it, and the pending timeouts with the time at which each is due. Decorations are
  kept as they were set; the host's re-anchoring of them under later edits is not
  modelled.
\<close>

fun docLines :: "jsstring \<Rightarrow> jsstring list" where
  "docLines [] = [[]]"
| "docLines [c] = (if c = 10 \<or> c = 13 then [[], []] else [[c]])"
| "docLines (c # d # cs) =
     (if c = 13 \<and> d = 10 then [] # docLines cs
      else if c = 10 \<or> c = 13 then [] # docLines (d # cs)
      else (case docLines (d # cs) of
              [] \<Rightarrow> [[c]]
            | l # ls \<Rightarrow> (c # l) # ls))"

datatype label = NoLabel | RemovedLabel nat | MovedLabel int int

record deco =
  fromLine :: nat
  fromChar :: nat
  toLine :: nat
  toChar :: nat
  after :: label

record editor =
  docText :: jsstring
  decoTypes :: "(nat \<times> deco list) list"
  nextType :: nat
  timers :: "(nat \<times> nat list) list"
  now :: nat

definition lineCount :: "editor \<Rightarrow> nat" where
  "lineCount ed = length (docLines (docText ed))"

text \<open>\<^verbatim>\<open>editor.document.lineAt(l).range.end.character\<close>\<close>

definition lineEnd :: "editor \<Rightarrow> nat \<Rightarrow> nat" where
  "lineEnd ed l = length (docLines (docText ed) ! l)"

definition createTextEditorDecorationType :: "editor \<Rightarrow> nat \<times> editor" where
  "createTextEditorDecorationType ed =
     (nextType ed, ed\<lparr>decoTypes := decoTypes ed @ [(nextType ed, [])], nextType := nextType ed + 1\<rparr>)"

definition setDecorations :: "nat \<Rightarrow> deco list \<Rightarrow> editor \<Rightarrow> editor" where
  "setDecorations ty ds ed =
     ed\<lparr>decoTypes := map (\<lambda>(k, old). if k = ty then (k, ds) else (k, old)) (decoTypes ed)\<rparr>"

definition dispose :: "nat \<Rightarrow> editor \<Rightarrow> editor" where
  "dispose ty ed = ed\<lparr>decoTypes := filter (\<lambda>(k, ds). k \<noteq> ty) (decoTypes ed)\<rparr>"

definition setTimeout :: "nat list \<Rightarrow> nat \<Rightarrow> editor \<Rightarrow> editor" where
  "setTimeout tys ms ed = ed\<lparr>timers := timers ed @ [(now ed + ms, tys)]\<rparr>"

text \<open>The three loops that turn the hints into decorations.\<close>

fun addedRanges :: "editor \<Rightarrow> (int \<times> int) list \<Rightarrow> deco list" where
  "addedRanges ed [] = []"
| "addedRanges ed ((startLine, endLine) # rest) =
     (if startLine > endLine then addedRanges ed rest
      else
        (let endLineClamped = nat (min (int (lineCount ed) - 1) (max 0 endLine))
         in \<lparr>fromLine = nat (max 0 startLine), fromChar = 0,
             toLine = endLineClamped, toChar = lineEnd ed endLineClamped, after = NoLabel\<rparr>
            # addedRanges ed rest))"

fun removedRanges :: "editor \<Rightarrow> removal list \<Rightarrow> deco list" where
  "removedRanges ed [] = []"
| "removedRanges ed (r # rest) =
     (if count r \<le> 0 then removedRanges ed rest
      else
        (let lineIdx = nat (min (max 0 (anchor r)) (max 0 (int (lineCount ed) - 1)))
         in \<lparr>fromLine = lineIdx, fromChar = 0,
             toLine = lineIdx, toChar = lineEnd ed lineIdx, after = RemovedLabel (count r)\<rparr>
            # removedRanges ed rest))"

fun movedRanges :: "editor \<Rightarrow> move list \<Rightarrow> deco list" where
  "movedRanges ed [] = []"
| "movedRanges ed (mv # rest) =
     (if start mv > end' mv then movedRanges ed rest
      else
        (let clampedStart = nat (max 0 (min (start mv) (int (lineCount ed) - 1)));
             clampedEnd = nat (max 0 (min (end' mv) (int (lineCount ed) - 1)))
         in \<lparr>fromLine = clampedStart, fromChar = 0,
             toLine = clampedEnd, toChar = lineEnd ed clampedEnd,
             after = MovedLabel (fromStart mv + 1) (fromEnd mv + 1)\<rparr>
            # movedRanges ed rest))"

definition DISPOSE_MS :: nat where
  "DISPOSE_MS = 3500"

text \<open>The body of \<^verbatim>\<open>replaceDocumentWithHighlight\<close>; \<open>None\<close> when the diff does not
  return.\<close>

definition replaceDocumentWithHighlight :: "editor \<Rightarrow> jsstring \<Rightarrow> editor option" where
  "replaceDocumentWithHighlight ed newText =
     (let oldText = docText ed in
      case computeChangeHints oldText newText of
        None \<Rightarrow> None
      | Some h \<Rightarrow>
          (let ed1 = ed\<lparr>docText := newText\<rparr> in
           if lineCount ed1 = 0 then Some ed1
           else
             (let (addedType, ed2) = createTextEditorDecorationType ed1;
                  (removedType, ed3) = createTextEditorDecorationType ed2;
                  (movedType, ed4) = createTextEditorDecorationType ed3;
                  ed5 = setDecorations addedType (addedRanges ed4 (added h)) ed4;
                  ed6 = setDecorations removedType (removedRanges ed4 (removed h)) ed5;
                  ed7 = setDecorations movedType (movedRanges ed4 (moved h)) ed6
              in Some (setTimeout [addedType, removedType, movedType] DISPOSE_MS ed7))))"

text \<open>The callback of the timeout: clear the three decoration sets, then dispose the
  three types.\<close>

definition disposeAll :: "nat list \<Rightarrow> editor \<Rightarrow> editor" where
  "disposeAll tys ed = foldl (\<lambda>e ty. dispose ty e) (foldl (\<lambda>e ty. setDecorations ty [] e) ed tys) tys"

text \<open>Time passing in the editor: every timeout that is due fires, in the order set.\<close>

definition advance :: "nat \<Rightarrow> editor \<Rightarrow> editor" where
  "advance d ed =
     (let t = now ed + d;
          due = filter (\<lambda>(at, tys). at \<le> t) (timers ed);
          rest = filter (\<lambda>(at, tys). \<not> at \<le> t) (timers ed)
      in (foldl (\<lambda>e (at, tys). disposeAll tys e) ed due)\<lparr>timers := rest, now := t\<rparr>)"

datatype action = Apply jsstring | Advance nat

fun act :: "editor \<Rightarrow> action \<Rightarrow> editor option" where
  "act ed (Apply newText) = replaceDocumentWithHighlight ed newText"
| "act ed (Advance d) = Some (advance d ed)"

fun acts :: "editor \<Rightarrow> action list \<Rightarrow> editor option" where
  "acts ed [] = Some ed"
| "acts ed (a # as) = (case act ed a of None \<Rightarrow> None | Some ed' \<Rightarrow> acts ed' as)"

definition editor0 :: "jsstring \<Rightarrow> editor" where
  "editor0 text = \<lparr>docText = text, decoTypes = [], nextType = 0, timers = [], now = 0\<rparr>"

text \<open>The decoration types that are live, and the decorations shown through them.\<close>

definition liveTypes :: "editor \<Rightarrow> nat set" where
  "liveTypes ed = fst ` set (decoTypes ed)"

section \<open>Invariants and example states\<close>

text \<open>Every live decoration type and every type that a pending timeout will dispose has
  been created, that is, lies below the next fresh type.\<close>

definition wellFormed :: "editor \<Rightarrow> bool" where
  "wellFormed ed \<longleftrightarrow>
     (\<forall>k \<in> liveTypes ed. k < nextType ed) \<and>
     (\<forall>p \<in> set (timers ed). \<forall>k \<in> set (snd p). k < nextType ed)"

text \<open>
  The types \<open>T\<close>, all to be disposed by a timeout due at \<open>due\<close> and by no other: before
  that time they are live and the timeout is pending, from that time on none is live.
\<close>

definition tracked :: "nat set \<Rightarrow> nat \<Rightarrow> editor \<Rightarrow> bool" where
  "tracked T due ed \<longleftrightarrow>
     (\<forall>k \<in> T. k < nextType ed) \<and>
     (\<forall>p \<in> set (timers ed). set (snd p) \<inter> T \<noteq> {} \<longrightarrow> fst p = due) \<and>
     (if now ed < due
      then T \<subseteq> liveTypes ed \<and> (\<exists>p \<in> set (timers ed). fst p = due \<and> T \<subseteq> set (snd p))
      else T \<inter> liveTypes ed = {})"

text \<open>The editor after \<^verbatim>\<open>"a"\<close> is replaced by \<^verbatim>\<open>"b\na"\<close> at time 0, and after the same text
  is applied again at time 1000.\<close>

definition firstApplied :: editor where
  "firstApplied =
     \<lparr>docText = [98, 10, 97],
      decoTypes = [(0, [\<lparr>fromLine = 0, fromChar = 0, toLine = 0, toChar = 1, after = NoLabel\<rparr>]),
                   (1, []), (2, [])],
      nextType = 3, timers = [(3500, [0, 1, 2])], now = 0\<rparr>"

definition secondApplied :: editor where
  "secondApplied =
     \<lparr>docText = [98, 10, 97],
      decoTypes = [(0, [\<lparr>fromLine = 0, fromChar = 0, toLine = 0, toChar = 1, after = NoLabel\<rparr>]),
                   (1, []), (2, []), (3, []), (4, []), (5, [])],
      nextType = 6, timers = [(3500, [0, 1, 2]), (4500, [3, 4, 5])], now = 1000\<rparr>"

section \<open>Properties of the diff engine\<close>

lemma splitLines_nonempty: "splitLines t \<noteq> []"
  by (induction t rule: splitLines.induct) (auto split: list.splits)

lemma docLines_nonempty: "docLines t \<noteq> []"
  by (induction t rule: docLines.induct) (auto split: list.splits)

text \<open>
  \<^bold>\<open>C10.\<close> Splitting a text at \<^verbatim>\<open>/\r?\n/\<close> always yields at least one line. Hence for
  every pair of texts both line arrays of \<^verbatim>\<open>computeChangeHints\<close> are non-empty and
  the \<^verbatim>\<open>if\<close> chain always takes the general branch: the branches guarded by
  \<^verbatim>\<open>n === 0\<close> and \<^verbatim>\<open>m === 0\<close> are never taken. In the same way the document of
  the editor has at least one line after the replacement, so the guard
  \<^verbatim>\<open>lineCount === 0\<close> of \<^verbatim>\<open>replaceDocumentWithHighlight\<close> never holds.
\<close>

theorem degenerate_branches_unreachable:
  "length (splitLines oldText) \<noteq> 0 \<and> length (splitLines newText) \<noteq> 0 \<and>
   diffBranch (length (splitLines oldText)) (length (splitLines newText)) = General \<and>
   lineCount (ed\<lparr>docText := newText\<rparr>) \<noteq> 0"
  by (simp add: splitLines_nonempty docLines_nonempty diffBranch_def lineCount_def)

text \<open>
  The search of \<^verbatim>\<open>offsetToLine\<close> returns as long as the sum of its bounds stays below
  \<open>2^32\<close>. So the diff returns for every old text of fewer than \<open>2^31\<close> code units, which
  is beyond the longest string of the engines that run the extension.
\<close>

lemma offsetSearch_returns:
  "0 \<le> lo \<Longrightarrow> hi < 2 ^ 31 \<Longrightarrow> \<exists>r. offsetSearch offs off lo hi ans = Some r"
proof (induction "nat (hi - lo + 1)" arbitrary: lo hi ans rule: less_induct)
  case less
  show ?case
  proof (cases "lo \<le> hi")
    case False
    then show ?thesis by (subst offsetSearch.simps) simp
  next
    case True
    define mid where "mid = (lo + hi) div 2"
    have wrap: "(lo + hi) mod 4294967296 div 2 = mid"
      using less.prems True by (simp add: mid_def)
    have bounds: "lo \<le> mid" "mid \<le> hi" using True by (auto simp: mid_def)
    have up: "\<exists>r. offsetSearch offs off (mid + 1) hi a = Some r" for a
      using bounds less.prems by (intro less.hyps) auto
    have down: "\<exists>r. offsetSearch offs off lo (mid - 1) a = Some r" for a
      using bounds less.prems by (intro less.hyps) auto
    show ?thesis
      using True up [of "nat mid"] down [of ans]
      by (subst offsetSearch.simps) (simp add: wrap Let_def)
  qed
qed

lemma offsetToLine_returns:
  "length offs \<le> 2 ^ 31 \<Longrightarrow> \<exists>r. offsetToLine offs off = Some r"
  unfolding offsetToLine_def by (rule offsetSearch_returns) auto

lemma movedLoop_returns:
  "length offs \<le> 2 ^ 31 \<Longrightarrow> \<exists>r. movedLoop oldText B offs sp mv = Some r"
proof (induction sp arbitrary: mv)
  case Nil
  then show ?case by simp
next
  case (Cons p sp)
  obtain s e where p: "p = (s, e)" by (cases p)
  from offsetToLine_returns [OF Cons.prems] obtain r
    where r: "offsetToLine offs (nat (indexOf oldText (joinLines (slice B s (e + 1))))) = Some r"
    by blast
  from Cons.IH [OF Cons.prems] show ?case
    by (simp add: p Let_def r)
qed

lemma length_offsetsFrom: "length (offsetsFrom t k) \<le> length t"
  by (induction t arbitrary: k) (auto simp: le_SucI)

lemma computeChangeHints_returns:
  assumes "length oldText < 2 ^ 31"
  shows "\<exists>h. computeChangeHints oldText newText = Some h"
proof -
  have "length (oldOffsets oldText) \<le> 2 ^ 31"
    using length_offsetsFrom [of oldText 0] assms by (simp add: oldOffsets_def)
  from movedLoop_returns [OF this] show ?thesis
    by (auto simp: computeChangeHints_def Let_def split: prod.splits)
qed

text \<open>On identical line arrays the walk only ever takes the matching branch, whatever
  the table holds.\<close>

lemma walkLoop_same:
  "wi w = wj w \<Longrightarrow> addStart w = -1 \<Longrightarrow> delCount w = 0 \<Longrightarrow>
   addStart (walkLoop A A dp w) = -1 \<and> delCount (walkLoop A A dp w) = 0 \<and>
   wadded (walkLoop A A dp w) = wadded w \<and> wremoved (walkLoop A A dp w) = wremoved w"
proof (induction "length A - wi w" arbitrary: w)
  case 0
  then show ?case by (simp add: walkLoop.simps [of A A dp w])
next
  case (Suc k)
  let ?w = "\<lparr>wi = wi w + 1, wj = wj w + 1, addStart = -1, delCount = 0,
              wadded = wadded w, wremoved = wremoved w\<rparr>"
  have lt: "wi w < length A" using Suc.hyps(2) by simp
  have unfold: "walkLoop A A dp w = walkLoop A A dp ?w"
    using lt Suc.prems by (subst walkLoop.simps) simp
  have "k = length A - wi ?w" using Suc.hyps(2) by simp
  from Suc.hyps(1) [OF this] Suc.prems show ?case
    unfolding unfold by simp
qed

lemma generalCase_same: "generalCase A A = ([], [])"
  using walkLoop_same
    [of "\<lparr>wi = 0, wj = 0, addStart = -1, delCount = 0, wadded = [], wremoved = []\<rparr>"
        A "lcsTable A A"]
  by (simp add: generalCase_def Let_def)

lemma spans_same: "spans A A = ([], [])"
  by (simp add: spans_def diffBranch_def generalCase_same)

lemma computeChangeHints_same:
  "computeChangeHints X X = Some \<lparr>added = [], removed = [], moved = []\<rparr>"
  by (simp add: computeChangeHints_def spans_same Let_def)

text \<open>
  \<^bold>\<open>C9.\<close> For every text \<open>X\<close>, \<^verbatim>\<open>computeChangeHints(X, X)\<close> returns, and returns empty
  \<open>added\<close>, empty \<open>removed\<close> and empty \<open>moved\<close>.
\<close>

theorem identical_texts_no_hints:
  "computeChangeHints X X = Some \<lparr>added = [], removed = [], moved = []\<rparr>"
  by (rule computeChangeHints_same)

text \<open>
  \<^bold>\<open>C2.\<close> The code at the input of the claim: for the old text \<^verbatim>\<open>""\<close> and the new text
  \<^verbatim>\<open>"a\nb\nc"\<close> the old text splits into the one line \<^verbatim>\<open>""\<close>, the branch for an empty
  line array is not taken, and the walk reports no added span and one removed line
  anchored at the last line, where the claim expects \<open>added = [(0,2)]\<close> and
  \<open>removed = []\<close>.
\<close>

theorem empty_old_text_hints:
  "computeChangeHints (js '''') (js ''a\<newline>b\<newline>c'') =
     Some \<lparr>added = [], removed = [\<lparr>anchor = 2, count = 1\<rparr>], moved = []\<rparr>"
  by code_simp

text \<open>
  \<^bold>\<open>C3.\<close> The code at two inputs where a line is not accounted for. From \<^verbatim>\<open>"a"\<close> to
  \<^verbatim>\<open>"a\nb"\<close> the new line \<^verbatim>\<open>"b"\<close> (line 1, absent from the old text) is covered by no
  added span: the walk stops when the old text is used up and only closes a run that is
  already open. From \<^verbatim>\<open>"a\nb"\<close> to \<^verbatim>\<open>"a"\<close> the deleted line \<^verbatim>\<open>"b"\<close> produces no removed
  entry, for the same reason on the other side.
\<close>

theorem trailing_lines_not_accounted:
  "computeChangeHints (js ''a'') (js ''a\<newline>b'') =
     Some \<lparr>added = [], removed = [], moved = []\<rparr> \<and>
   splitLines (js ''a\<newline>b'') ! 1 \<notin> set (splitLines (js ''a'')) \<and>
   computeChangeHints (js ''a\<newline>b'') (js ''a'') =
     Some \<lparr>added = [], removed = [], moved = []\<rparr>"
  by code_simp

text \<open>The example of the moved block, evaluated step by step.\<close>

lemma moved_example_old:
  "js ''x\<newline>y\<newline>foo\<newline>bar\<newline>z'' = [120, 10, 121, 10, 102, 111, 111, 10, 98, 97, 114, 10, 122]"
  by (simp add: js_def)

lemma moved_example_new:
  "js ''x\<newline>foo\<newline>bar\<newline>y\<newline>z'' = [120, 10, 102, 111, 111, 10, 98, 97, 114, 10, 121, 10, 122]"
  by (simp add: js_def)

lemma moved_example_split_old:
  "splitLines [120, 10, 121, 10, 102, 111, 111, 10, 98, 97, 114, 10, 122] =
     [[120], [121], [102, 111, 111], [98, 97, 114], [122]]"
  by simp

lemma moved_example_split_new:
  "splitLines [120, 10, 102, 111, 111, 10, 98, 97, 114, 10, 121, 10, 122] =
     [[120], [102, 111, 111], [98, 97, 114], [121], [122]]"
  by simp

lemma moved_example_spans:
  "spans [[120], [121], [102, 111, 111], [98, 97, 114], [122]]
         [[120], [102, 111, 111], [98, 97, 114], [121], [122]] =
     ([(3, 3)], [\<lparr>anchor = 1, count = 1\<rparr>])"
  by code_simp

lemma moved_example_offsets:
  "oldOffsets [120, 10, 121, 10, 102, 111, 111, 10, 98, 97, 114, 10, 122] = [0, 2, 4, 8, 12]"
  by (simp add: oldOffsets_def)

lemma moved_example_search: "offsetToLine [0, 2, 4, 8, 12] 2 = Some 1"
  by (simp add: offsetToLine_def offsetSearch.simps)

lemma moved_example_loop:
  "movedLoop [120, 10, 121, 10, 102, 111, 111, 10, 98, 97, 114, 10, 122]
     [[120], [102, 111, 111], [98, 97, 114], [121], [122]] [0, 2, 4, 8, 12] [(3, 3)] [] =
   Some [\<lparr>start = 3, end' = 3, fromStart = 1, fromEnd = 1\<rparr>]"
  by (simp add: moved_example_search slice_def sliceIdx_def isSpace_def indexOf_def)

lemma moved_example:
  "computeChangeHints (js ''x\<newline>y\<newline>foo\<newline>bar\<newline>z'') (js ''x\<newline>foo\<newline>bar\<newline>y\<newline>z'') =
     Some \<lparr>added = [(3, 3)], removed = [\<lparr>anchor = 1, count = 1\<rparr>],
           moved = [\<lparr>start = 3, end' = 3, fromStart = 1, fromEnd = 1\<rparr>]\<rparr>"
  apply (simp only: moved_example_old moved_example_new computeChangeHints_def Let_def
      moved_example_split_old moved_example_split_new moved_example_spans
      moved_example_offsets prod.case)
  apply (simp del: movedLoop.simps add: moved_example_loop)
  done

text \<open>
  \<^bold>\<open>C7\<close>, as stated, fails: for the old text \<^verbatim>\<open>"x\ny\nfoo\nbar\nz"\<close> and the new text
  \<^verbatim>\<open>"x\nfoo\nbar\ny\nz"\<close> the result has no moved entry for the block of the lines
  \<^verbatim>\<open>"foo"\<close> and \<^verbatim>\<open>"bar"\<close> (lines 1 to 2 of the new text, from lines 2 to 3 of the old).
\<close>

theorem moved_block_counterexample:
  "map_option moved
     (computeChangeHints (js ''x\<newline>y\<newline>foo\<newline>bar\<newline>z'') (js ''x\<newline>foo\<newline>bar\<newline>y\<newline>z'')) \<noteq>
   Some [\<lparr>start = 1, end' = 2, fromStart = 2, fromEnd = 3\<rparr>] \<and>
   \<lparr>start = 1, end' = 2, fromStart = 2, fromEnd = 3\<rparr> \<notin>
     set (moved (the (computeChangeHints (js ''x\<newline>y\<newline>foo\<newline>bar\<newline>z'')
                                         (js ''x\<newline>foo\<newline>bar\<newline>y\<newline>z''))))"
  by (simp add: moved_example)

text \<open>
  \<^bold>\<open>C7\<close>, amended: the two-line block is part of the longest common subsequence and
  counts as unchanged; what the diff reports as relocated is the single line \<^verbatim>\<open>"y"\<close>. It
  is deleted before line 1, added as the span \<open>(3,3)\<close>, and flagged as moved with origin
  line 1 of the old text, which is where \<^verbatim>\<open>"y"\<close> sat.
\<close>

theorem moved_line_flagged:
  "computeChangeHints (js ''x\<newline>y\<newline>foo\<newline>bar\<newline>z'') (js ''x\<newline>foo\<newline>bar\<newline>y\<newline>z'') =
     Some \<lparr>added = [(3, 3)], removed = [\<lparr>anchor = 1, count = 1\<rparr>],
           moved = [\<lparr>start = 3, end' = 3, fromStart = 1, fromEnd = 1\<rparr>]\<rparr>"
  by (rule moved_example)

section \<open>Properties of the utterance reconciler\<close>

lemma overlapLoop_le: "overlapLoop base next n \<le> n"
  by (induction n) auto

lemma overlapLoop_suffix: "suffix (take (overlapLoop base next n) next) base"
  by (induction n) auto

lemma overlapLoop_longest:
  "overlapLoop base next n < i \<Longrightarrow> i \<le> n \<Longrightarrow> \<not> suffix (take i next) base"
proof (induction n)
  case 0
  then show ?case by simp
next
  case (Suc n)
  show ?case
  proof (cases "suffix (take (Suc n) next) base")
    case True
    with Suc.prems show ?thesis by simp
  next
    case False
    show ?thesis
    proof (cases "i = Suc n")
      case True
      with False show ?thesis by simp
    next
      case neq: False
      with Suc.prems have "i \<le> n" by simp
      moreover from False Suc.prems have "overlapLoop base next n < i" by simp
      ultimately show ?thesis by (rule Suc.IH [rotated])
    qed
  qed
qed

lemma suffix_take_bound:
  assumes "i \<le> length next" "suffix (take i next) base"
  shows "i \<le> min (length base) (length next)"
proof -
  from assms(2) have "length (take i next) \<le> length base" by (rule suffix_length_le)
  with assms(1) show ?thesis by simp
qed

lemma appendWithOverlap_eq:
  "appendWithOverlap base next =
     base @ drop (overlapLoop base next (min (length base) (length next))) next"
  by (simp add: appendWithOverlap_def Let_def)

lemma suffix_appendWithOverlap: "suffix next (appendWithOverlap base next)"
proof -
  let ?k = "overlapLoop base next (min (length base) (length next))"
  from overlapLoop_suffix [of base "next" "min (length base) (length next)"]
  obtain p where "base = p @ take ?k next" by (auto simp: suffix_def)
  then have "base @ drop ?k next = p @ next" by (metis append.assoc append_take_drop_id)
  then show ?thesis by (simp add: appendWithOverlap_eq suffix_def)
qed

lemma committed_final:
  "trim raw \<noteq> [] \<Longrightarrow>
   committed (onTranscript cfg raw True sf s) = appendWithOverlap (committed s) (trim raw)"
  by (simp add: onTranscript_def Let_def resetIdle_def safeResolve_def appendWithOverlap_def)

lemma hello_world: "appendWithOverlap (js ''hello wor'') (js ''world'') = js ''hello world''"
  by code_simp

text \<open>
  \<^bold>\<open>C4.\<close> \<^verbatim>\<open>appendWithOverlap(base, next)\<close> appends to \<open>base\<close> what is left of \<open>next\<close>
  after its first \<open>k\<close> code units, where \<open>k\<close> is the length of the longest prefix of
  \<open>next\<close> that is a suffix of \<open>base\<close>. A final transcript message whose text (the
  transcript, trimmed, as the handler takes it) is not empty sets \<open>committed\<close> to the old
  \<open>committed\<close> stitched with that text in this way. Stitching \<^verbatim>\<open>"hello wor"\<close> and
  \<^verbatim>\<open>"world"\<close> gives \<^verbatim>\<open>"hello world"\<close>.
\<close>

theorem overlap_stitching:
  "(\<exists>k \<le> length next.
      suffix (take k next) base \<and>
      (\<forall>i \<le> length next. suffix (take i next) base \<longrightarrow> i \<le> k) \<and>
      appendWithOverlap base next = base @ drop k next) \<and>
   (trim raw \<noteq> [] \<longrightarrow>
      committed (onTranscript cfg raw True sf s) = appendWithOverlap (committed s) (trim raw)) \<and>
   appendWithOverlap (js ''hello wor'') (js ''world'') = js ''hello world''"
proof (intro conjI)
  let ?n = "min (length base) (length next)"
  let ?k = "overlapLoop base next ?n"
  have le: "?k \<le> length next" using overlapLoop_le [of base "next" ?n] by simp
  have longest: "\<forall>i \<le> length next. suffix (take i next) base \<longrightarrow> i \<le> ?k"
  proof (intro allI impI)
    fix i assume i: "i \<le> length next" and suf: "suffix (take i next) base"
    from i suf have "i \<le> ?n" by (rule suffix_take_bound)
    with suf overlapLoop_longest [of base "next" ?n i] show "i \<le> ?k" by (meson not_le)
  qed
  from le overlapLoop_suffix [of base "next" ?n] longest appendWithOverlap_eq [of base "next"]
  show "\<exists>k \<le> length next.
      suffix (take k next) base \<and>
      (\<forall>i \<le> length next. suffix (take i next) base \<longrightarrow> i \<le> k) \<and>
      appendWithOverlap base next = base @ drop k next" by blast
next
  show "trim raw \<noteq> [] \<longrightarrow>
      committed (onTranscript cfg raw True sf s) = appendWithOverlap (committed s) (trim raw)"
    by (simp add: committed_final)
next
  show "appendWithOverlap (js ''hello wor'') (js ''world'') = js ''hello world''"
    by (rule hello_world)
qed

text \<open>\<^bold>\<open>C4\<close>, at \<open>committed\<close> \<^verbatim>\<open>"hello wor"\<close> and a final \<^verbatim>\<open>"world"\<close>: the overlap is
  at least the three code units of \<^verbatim>\<open>"wor"\<close>, and \<open>committed\<close> becomes \<^verbatim>\<open>"hello world"\<close>.\<close>

theorem overlap_stitching_witness:
  "(\<exists>k \<le> length (js ''world'').
      suffix (take k (js ''world'')) (js ''hello wor'') \<and>
      (3 \<le> length (js ''world'') \<and> suffix (take 3 (js ''world'')) (js ''hello wor'') \<and> 3 \<le> k) \<and>
      appendWithOverlap (js ''hello wor'') (js ''world'') = js ''hello wor'' @ drop k (js ''world'')) \<and>
   trim (js ''world'') \<noteq> [] \<and>
   committed (onTranscript config0 (js ''world'') True False
                (session0\<lparr>committed := js ''hello wor''\<rparr>)) = js ''hello world''"
proof -
  note inst = overlap_stitching [of "js ''world''" "js ''hello wor''" "js ''world''" config0 False
      "session0\<lparr>committed := js ''hello wor''\<rparr>"]
  have t: "trim (js ''world'') = js ''world''"
    by (simp add: js_def trim_def isSpace_def)
  have three: "3 \<le> length (js ''world'') \<and> suffix (take 3 (js ''world'')) (js ''hello wor'')"
    by (simp add: js_def suffix_def)
  have ne: "trim (js ''world'') \<noteq> []" by (simp add: t) (simp add: js_def)
  from inst obtain k where k: "k \<le> length (js ''world'')"
      "suffix (take k (js ''world'')) (js ''hello wor'')"
      "\<forall>i \<le> length (js ''world''). suffix (take i (js ''world'')) (js ''hello wor'') \<longrightarrow> i \<le> k"
      "appendWithOverlap (js ''hello wor'') (js ''world'') = js ''hello wor'' @ drop k (js ''world'')"
    by blast
  from k(3) three have "3 \<le> k" by blast
  moreover from inst ne have
    "committed (onTranscript config0 (js ''world'') True False
                (session0\<lparr>committed := js ''hello wor''\<rparr>)) = js ''hello world''"
    by (simp add: t session0_def)
  ultimately show ?thesis using k three ne by blast
qed

text \<open>Trimming, and what a message with a non-blank transcript leaves behind.\<close>

lemma trim_nonempty_iff: "trim x \<noteq> [] \<longleftrightarrow> (\<exists>c \<in> set x. \<not> isSpace c)"
proof
  assume "trim x \<noteq> []"
  then have "dropWhile isSpace x \<noteq> []" by (auto simp: trim_def dest: set_dropWhileD)
  then show "\<exists>c \<in> set x. \<not> isSpace c"
    by (auto simp: dropWhile_eq_Nil_conv dest: set_dropWhileD)
next
  assume "\<exists>c \<in> set x. \<not> isSpace c"
  then have ne: "dropWhile isSpace x \<noteq> []" by (simp add: dropWhile_eq_Nil_conv)
  then have "\<not> isSpace (hd (dropWhile isSpace x))" by (rule hd_dropWhile)
  moreover from ne have "hd (dropWhile isSpace x) \<in> set (rev (dropWhile isSpace x))" by simp
  ultimately have "dropWhile isSpace (rev (dropWhile isSpace x)) \<noteq> []"
    by (auto simp: dropWhile_eq_Nil_conv)
  then show "trim x \<noteq> []" by (simp add: trim_def)
qed

lemma trim_subset: "set (trim x) \<subseteq> set x"
proof -
  have "set (trim x) \<subseteq> set (dropWhile isSpace x)"
    using set_dropWhileD [of _ isSpace "rev (dropWhile isSpace x)"] by (auto simp: trim_def)
  also have "\<dots> \<subseteq> set x" by (auto dest: set_dropWhileD)
  finally show ?thesis .
qed

lemma trim_idem_nonempty: "trim x \<noteq> [] \<Longrightarrow> trim (trim x) \<noteq> []"
proof -
  assume ne: "trim x \<noteq> []"
  let ?ys = "rev (dropWhile isSpace x)"
  from ne have "dropWhile isSpace ?ys \<noteq> []" by (simp add: trim_def)
  then have "\<not> isSpace (hd (dropWhile isSpace ?ys))" by (rule hd_dropWhile)
  moreover from \<open>dropWhile isSpace ?ys \<noteq> []\<close> have "hd (dropWhile isSpace ?ys) \<in> set (trim x)"
    by (simp add: trim_def)
  ultimately show ?thesis unfolding trim_nonempty_iff [of "trim x"] by blast
qed

lemma suffix_trim_nonempty:
  assumes "suffix (trim raw) u" "trim raw \<noteq> []"
  shows "trim u \<noteq> []"
proof -
  from assms(2) have "trim (trim raw) \<noteq> []" by (rule trim_idem_nonempty)
  then obtain c where "c \<in> set (trim raw)" "\<not> isSpace c" by (auto simp: trim_nonempty_iff)
  moreover from assms(1) have "set (trim raw) \<subseteq> set u" by (rule set_mono_suffix)
  ultimately show ?thesis by (auto simp: trim_nonempty_iff)
qed

lemma utterance_suffix:
  "trim raw \<noteq> [] \<Longrightarrow> suffix (trim raw) (utterance (onTranscript cfg raw f sf s))"
  using suffix_appendWithOverlap [of "trim raw" "committed s"]
  by (auto simp: onTranscript_def Let_def resetIdle_def safeResolve_def suffix_def)

lemma idleTimer_onTranscript:
  "trim raw \<noteq> [] \<Longrightarrow>
   idleTimer (onTranscript cfg raw f sf s) = Some (clock s + timeoutDelay (idleDelay cfg)) \<and>
   clock (onTranscript cfg raw f sf s) = clock s"
  by (simp add: onTranscript_def Let_def resetIdle_def safeResolve_def)

text \<open>The delay of the idle timeout, by the configured value.\<close>

lemma idleDelay_in_range:
  "trailingSilenceMs cfg = Num T \<Longrightarrow> T + 200 \<le> 2147483647 \<Longrightarrow>
   timeoutDelay (idleDelay cfg) = nat (max 1200 (T + 200))"
  by (auto simp: idleDelay_def trailingMsCfg_def TIMEOUT_MAX_def max_def)

lemma idleDelay_overflow:
  "trailingSilenceMs cfg = Num T \<Longrightarrow> 2147483647 < T + 200 \<Longrightarrow>
   timeoutDelay (idleDelay cfg) = 1"
  by (auto simp: idleDelay_def trailingMsCfg_def TIMEOUT_MAX_def max_def)

lemma idleDelay_NaN: "trailingSilenceMs cfg = NaN \<Longrightarrow> timeoutDelay (idleDelay cfg) = 1"
  by (simp add: idleDelay_def trailingMsCfg_def)

text \<open>Time passing in two steps is time passing in one.\<close>

lemma elapse_add: "elapse d2 (elapse d1 s) = elapse (d1 + d2) s"
  by (cases "idleTimer s")
     (auto simp: elapse_def idleFire_def safeResolve_def add.assoc)

lemma elapse_early:
  "idleTimer s = Some due \<Longrightarrow> clock s + d < due \<Longrightarrow>
   elapse d s = s\<lparr>clock := clock s + d\<rparr>"
  by (simp add: elapse_def)

lemma elapse_due:
  "idleTimer s = Some due \<Longrightarrow> due \<le> clock s + d \<Longrightarrow> \<not> settled s \<Longrightarrow> trim (utterance s) \<noteq> [] \<Longrightarrow>
   outcomes (elapse d s) = outcomes s @ [Resolved (trim (utterance s))] \<and> settled (elapse d s)"
  by (simp add: elapse_def idleFire_def safeResolve_def)

lemma trim_hi: "trim (js ''hi'') = js ''hi''"
  by (simp add: js_def trim_def isSpace_def)

lemma js_nonempty: "js (c # cs) \<noteq> []"
  by (simp add: js_def)

text \<open>
  \<^bold>\<open>C6\<close>, as stated, fails. With a trailing silence of 2147483448 ms, which the
  extension's own command accepts, \<open>max 1200 (T + 200)\<close> is 2147483648, one more than the
  largest delay the runtime takes: the timeout set by an interim \<^verbatim>\<open>"hi"\<close> is due
  after 1 ms, and the session is resolved with \<^verbatim>\<open>"hi"\<close> 1 ms after its last event.
\<close>

theorem idle_timer_overflow_counterexample:
  "idleTimer (onTranscript \<lparr>trailingSilenceMs = Num 2147483448, hasOnInterim = True\<rparr>
                (js ''hi'') False False session0) = Some 1 \<and>
   \<not> settled (onTranscript \<lparr>trailingSilenceMs = Num 2147483448, hasOnInterim = True\<rparr>
                (js ''hi'') False False session0) \<and>
   outcomes (elapse 1 (onTranscript \<lparr>trailingSilenceMs = Num 2147483448, hasOnInterim = True\<rparr>
                         (js ''hi'') False False session0)) = [Resolved (js ''hi'')] \<and>
   (1 :: int) < max 1200 (2147483448 + 200)"
proof -
  have ne: "js ''hi'' \<noteq> []" by (rule js_nonempty)
  have s: "onTranscript \<lparr>trailingSilenceMs = Num 2147483448, hasOnInterim = True\<rparr>
             (js ''hi'') False False session0 =
           session0\<lparr>utterance := js ''hi'', lastTxt := js ''hi'', idleTimer := Some 1,
                    interims := [js ''hi'']\<rparr>"
    using ne
    by (simp add: onTranscript_def Let_def trim_hi resetIdle_def idleDelay_def trailingMsCfg_def
        TIMEOUT_MAX_def session0_def)
  show ?thesis
    unfolding s using ne
    by (simp add: session0_def elapse_def idleFire_def safeResolve_def trim_hi)
qed

text \<open>
  \<^bold>\<open>C6\<close>, amended. Time is counted in milliseconds on the clock of the session, and a
  timeout fires when its due time is reached. A transcript message whose text (the
  transcript, trimmed, as the handler takes it) is not empty leaves exactly one idle
  timeout pending, due \<open>D\<close> after the message. For a configured trailing silence that is
  a whole number \<open>T\<close> with \<open>T + 200\<close> at most \<open>2^31 - 1\<close>, \<open>D\<close> is \<open>max 1200 (T + 200)\<close>; for
  a larger \<open>T\<close>, and for a setting that is not a number, \<open>D\<close> is 1. The preview the
  message leaves is not blank. If the session is not resolved by that message and nothing
  but time follows, then it is still unresolved, with nothing resolved or rejected, at
  every time before \<open>D\<close> has passed, and once \<open>D\<close> has passed it is resolved with the
  trimmed preview.
\<close>

theorem idle_timer:
  "trim raw \<noteq> [] \<longrightarrow>
   idleTimer (onTranscript cfg raw f sf s) =
     Some (clock (onTranscript cfg raw f sf s) + timeoutDelay (idleDelay cfg)) \<and>
   (\<forall>T. trailingSilenceMs cfg = Num T \<and> T + 200 \<le> 2147483647 \<longrightarrow>
        timeoutDelay (idleDelay cfg) = nat (max 1200 (T + 200))) \<and>
   (\<forall>T. trailingSilenceMs cfg = Num T \<and> 2147483647 < T + 200 \<longrightarrow>
        timeoutDelay (idleDelay cfg) = 1) \<and>
   (trailingSilenceMs cfg = NaN \<longrightarrow> timeoutDelay (idleDelay cfg) = 1) \<and>
   trim (utterance (onTranscript cfg raw f sf s)) \<noteq> [] \<and>
   (\<not> settled (onTranscript cfg raw f sf s) \<longrightarrow>
      (\<forall>d. d < timeoutDelay (idleDelay cfg) \<longrightarrow>
            \<not> settled (elapse d (onTranscript cfg raw f sf s)) \<and>
            outcomes (elapse d (onTranscript cfg raw f sf s)) = outcomes (onTranscript cfg raw f sf s)) \<and>
      (\<forall>d. timeoutDelay (idleDelay cfg) \<le> d \<longrightarrow>
            settled (elapse d (onTranscript cfg raw f sf s)) \<and>
            outcomes (elapse d (onTranscript cfg raw f sf s)) =
              outcomes (onTranscript cfg raw f sf s) @
                [Resolved (trim (utterance (onTranscript cfg raw f sf s)))]))"
proof
  assume ne: "trim raw \<noteq> []"
  let ?s = "onTranscript cfg raw f sf s"
  let ?D = "timeoutDelay (idleDelay cfg)"
  have timer: "idleTimer ?s = Some (clock ?s + ?D)"
    using idleTimer_onTranscript [OF ne, of cfg f sf s] by simp
  have inRange: "\<forall>T. trailingSilenceMs cfg = Num T \<and> T + 200 \<le> 2147483647 \<longrightarrow>
        ?D = nat (max 1200 (T + 200))"
    using idleDelay_in_range [of cfg] by blast
  have overflow: "\<forall>T. trailingSilenceMs cfg = Num T \<and> 2147483647 < T + 200 \<longrightarrow> ?D = 1"
    using idleDelay_overflow [of cfg] by blast
  have notNumber: "trailingSilenceMs cfg = NaN \<longrightarrow> ?D = 1"
    using idleDelay_NaN [of cfg] by blast
  have pre: "trim (utterance ?s) \<noteq> []"
    using utterance_suffix [OF ne] ne by (rule suffix_trim_nonempty)
  have early: "\<not> settled (elapse d ?s) \<and> outcomes (elapse d ?s) = outcomes ?s"
    if "\<not> settled ?s" "d < ?D" for d
  proof -
    from that(2) have "clock ?s + d < clock ?s + ?D" by simp
    from elapse_early [OF timer this] that(1) show ?thesis by simp
  qed
  have late: "settled (elapse d ?s) \<and> outcomes (elapse d ?s) = outcomes ?s @ [Resolved (trim (utterance ?s))]"
    if "\<not> settled ?s" "?D \<le> d" for d
  proof -
    from that(2) have "clock ?s + ?D \<le> clock ?s + d" by simp
    from elapse_due [OF timer this that(1) pre] show ?thesis by simp
  qed
  from timer inRange overflow notNumber pre early late
  show "idleTimer ?s = Some (clock ?s + ?D) \<and>
   (\<forall>T. trailingSilenceMs cfg = Num T \<and> T + 200 \<le> 2147483647 \<longrightarrow>
        ?D = nat (max 1200 (T + 200))) \<and>
   (\<forall>T. trailingSilenceMs cfg = Num T \<and> 2147483647 < T + 200 \<longrightarrow> ?D = 1) \<and>
   (trailingSilenceMs cfg = NaN \<longrightarrow> ?D = 1) \<and>
   trim (utterance ?s) \<noteq> [] \<and>
   (\<not> settled ?s \<longrightarrow>
      (\<forall>d. d < ?D \<longrightarrow> \<not> settled (elapse d ?s) \<and> outcomes (elapse d ?s) = outcomes ?s) \<and>
      (\<forall>d. ?D \<le> d \<longrightarrow>
            settled (elapse d ?s) \<and>
            outcomes (elapse d ?s) = outcomes ?s @ [Resolved (trim (utterance ?s))]))"
    by blast
qed

text \<open>\<^bold>\<open>C6\<close>, amended, at an interim \<^verbatim>\<open>"hi"\<close> with the default 1000 ms of trailing
  silence: the timeout is due after \<open>max 1200 (1000 + 200) = 1200\<close> ms, the session is
  unresolved after 1199 ms and resolved with \<^verbatim>\<open>"hi"\<close> after 1200 ms.\<close>

theorem idle_timer_witness:
  "trim (js ''hi'') \<noteq> [] \<and>
   trailingSilenceMs config0 = Num 1000 \<and> (1000 :: int) + 200 \<le> 2147483647 \<and>
   timeoutDelay (idleDelay config0) = nat (max 1200 (1000 + 200)) \<and>
   idleTimer (onTranscript config0 (js ''hi'') False False session0) = Some 1200 \<and>
   \<not> settled (onTranscript config0 (js ''hi'') False False session0) \<and>
   \<not> settled (elapse 1199 (onTranscript config0 (js ''hi'') False False session0)) \<and>
   outcomes (elapse 1200 (onTranscript config0 (js ''hi'') False False session0)) =
     [Resolved (js ''hi'')]"
proof -
  let ?s = "onTranscript config0 (js ''hi'') False False session0"
  have ne: "trim (js ''hi'') \<noteq> []"
    using js_nonempty [of "CHR ''h''" "''i''"] by (simp add: trim_hi)
  have cfg: "trailingSilenceMs config0 = Num 1000" by (simp add: config0_def)
  have fields: "\<not> settled ?s" "outcomes ?s = []" "utterance ?s = js ''hi''" "clock ?s = 0"
    using ne
    by (simp_all add: onTranscript_def Let_def trim_hi resetIdle_def config0_def session0_def)
  note inst = idle_timer [of "js ''hi''" config0 False False session0]
  from inst ne cfg have D: "timeoutDelay (idleDelay config0) = nat (max 1200 (1000 + 200))"
    by simp
  then have D': "timeoutDelay (idleDelay config0) = 1200" by simp
  from inst ne have "idleTimer ?s = Some (clock ?s + timeoutDelay (idleDelay config0))" by simp
  then have timer0: "idleTimer ?s = Some 1200" by (simp add: fields D')
  from inst ne fields(1) have early: "\<not> settled (elapse 1199 ?s)" by (simp add: D')
  from inst ne fields(1)
  have "outcomes (elapse 1200 ?s) = outcomes ?s @ [Resolved (trim (utterance ?s))]"
    by (simp add: D')
  then have resolved: "outcomes (elapse 1200 ?s) = [Resolved (js ''hi'')]"
    by (simp add: fields trim_hi)
  from ne cfg D timer0 fields(1) early resolved show ?thesis by simp
qed

text \<open>Settledness and the calls of \<^verbatim>\<open>resolve\<close> and \<^verbatim>\<open>reject\<close> along a run.\<close>

lemma step_settled:
  "settled s \<Longrightarrow> settled (step cfg s ev) \<and> outcomes (step cfg s ev) = outcomes s"
  by (cases ev)
     (auto simp: onTranscript_def Let_def resetIdle_def safeResolve_def safeReject_def
        onClose_def elapse_def idleFire_def split: option.splits)

lemma step_once:
  "length (outcomes s) = (if settled s then 1 else 0) \<Longrightarrow>
   length (outcomes (step cfg s ev)) = (if settled (step cfg s ev) then 1 else 0)"
  by (cases ev)
     (auto simp: onTranscript_def Let_def resetIdle_def safeResolve_def safeReject_def
        onClose_def elapse_def idleFire_def split: option.splits)

lemma run_append: "run cfg s (xs @ ys) = run cfg (run cfg s xs) ys"
  by (simp add: run_def)

lemma run_settled:
  "settled s \<Longrightarrow> settled (run cfg s evs) \<and> outcomes (run cfg s evs) = outcomes s"
proof (induction evs arbitrary: s)
  case Nil
  then show ?case by (simp add: run_def)
next
  case (Cons ev evs)
  from step_settled [OF Cons.prems, of cfg ev] Cons.IH [of "step cfg s ev"]
  show ?case by (simp add: run_def)
qed

lemma run_once:
  "length (outcomes s) = (if settled s then 1 else 0) \<Longrightarrow>
   length (outcomes (run cfg s evs)) = (if settled (run cfg s evs) then 1 else 0)"
proof (induction evs arbitrary: s)
  case Nil
  then show ?case by (simp add: run_def)
next
  case (Cons ev evs)
  from Cons.IH [OF step_once [OF Cons.prems, of cfg ev]]
  show ?case by (simp add: run_def)
qed

lemma safeResolve_timer: "idleTimer (safeResolve txt s) = idleTimer s"
  by (simp add: safeResolve_def)

lemma safeReject_timer: "idleTimer (safeReject err s) = idleTimer s"
  by (simp add: safeReject_def)

text \<open>
  \<^bold>\<open>C1\<close>, amended. From the opening of the socket, whatever happens (transcripts,
  close, errors, time passing and the idle timeout firing), \<^verbatim>\<open>resolve\<close> or \<^verbatim>\<open>reject\<close>
  has been called once if the session is settled and not at all otherwise; once the
  session is settled it stays settled and nothing that follows resolves or rejects
  again. Settling leaves the idle timeout as it is: it is not cancelled, and its firing
  changes nothing of the outcome.
\<close>

theorem resolution_at_most_once:
  "length (outcomes (run cfg session0 evs)) = (if settled (run cfg session0 evs) then 1 else 0) \<and>
   (settled (run cfg session0 evs) \<longrightarrow>
      settled (run cfg session0 (evs @ later)) \<and>
      outcomes (run cfg session0 (evs @ later)) = outcomes (run cfg session0 evs)) \<and>
   idleTimer (safeResolve txt s) = idleTimer s \<and>
   idleTimer (safeReject err s) = idleTimer s"
proof (intro conjI impI)
  show "length (outcomes (run cfg session0 evs)) = (if settled (run cfg session0 evs) then 1 else 0)"
    by (rule run_once) (simp add: session0_def)
next
  assume "settled (run cfg session0 evs)"
  from run_settled [OF this, of cfg later]
  show "settled (run cfg session0 (evs @ later))"
    and "outcomes (run cfg session0 (evs @ later)) = outcomes (run cfg session0 evs)"
    by (simp_all add: run_append)
next
  show "idleTimer (safeResolve txt s) = idleTimer s" by (rule safeResolve_timer)
next
  show "idleTimer (safeReject err s) = idleTimer s" by (rule safeReject_timer)
qed

lemma trim_there: "trim (js ''there'') = js ''there''"
  by (simp add: js_def trim_def isSpace_def)

lemma trim_hello: "trim (js ''hello'') = js ''hello''"
  by (simp add: js_def trim_def isSpace_def)

lemma after_speech_final:
  "run config0 session0 [Transcript (js ''hi'') False True] =
     session0\<lparr>finalTranscript := js ''hi'', settled := True, utterance := js ''hi'',
              lastTxt := js ''hi'', idleTimer := Some 1200, outcomes := [Resolved (js ''hi'')],
              closeCalls := 1\<rparr>"
  using js_nonempty [of "CHR ''h''" "''i''"]
  by (simp add: run_def onTranscript_def Let_def trim_hi resetIdle_def idleDelay_def
      trailingMsCfg_def TIMEOUT_MAX_def config0_def session0_def safeResolve_def)

text \<open>\<^bold>\<open>C1\<close>, amended, at a session settled by a speech-final \<^verbatim>\<open>"hi"\<close> and followed by
  another speech-final message, a close, an error and five seconds.\<close>

theorem resolution_at_most_once_witness:
  "settled (run config0 session0 [Transcript (js ''hi'') False True]) \<and>
   length (outcomes (run config0 session0 [Transcript (js ''hi'') False True])) = 1 \<and>
   outcomes (run config0 session0
     ([Transcript (js ''hi'') False True] @
      [Transcript (js ''there'') False True, Close, Error (js ''x''), Elapse 5000])) =
     [Resolved (js ''hi'')]"
proof -
  have st: "settled (run config0 session0 [Transcript (js ''hi'') False True])"
    and out: "outcomes (run config0 session0 [Transcript (js ''hi'') False True]) = [Resolved (js ''hi'')]"
    unfolding after_speech_final by simp_all
  from resolution_at_most_once
    [of config0 "[Transcript (js ''hi'') False True]"
        "[Transcript (js ''there'') False True, Close, Error (js ''x''), Elapse 5000]"] st out
  show ?thesis by simp
qed

text \<open>
  \<^bold>\<open>C1\<close>, as stated, fails. After a speech-final \<^verbatim>\<open>"hi"\<close> the session is settled and the
  idle timeout is still pending. An interim \<^verbatim>\<open>"there"\<close> arriving then replaces the
  preview and is passed to \<^verbatim>\<open>onInterim\<close>; a final \<^verbatim>\<open>"there"\<close> arriving instead is
  appended to \<open>committed\<close>.
\<close>

theorem event_after_settlement_counterexample:
  "settled (run config0 session0 [Transcript (js ''hi'') False True]) \<and>
   idleTimer (run config0 session0 [Transcript (js ''hi'') False True]) = Some 1200 \<and>
   utterance (run config0 session0 [Transcript (js ''hi'') False True]) = js ''hi'' \<and>
   utterance (run config0 session0
     [Transcript (js ''hi'') False True, Transcript (js ''there'') False False]) = js ''there'' \<and>
   interims (run config0 session0 [Transcript (js ''hi'') False True]) = [] \<and>
   interims (run config0 session0
     [Transcript (js ''hi'') False True, Transcript (js ''there'') False False]) = [js ''there''] \<and>
   committed (run config0 session0 [Transcript (js ''hi'') False True]) = [] \<and>
   committed (run config0 session0
     [Transcript (js ''hi'') False True, Transcript (js ''there'') True False]) = js ''there''"
proof -
  have two: "run config0 session0 [Transcript (js ''hi'') False True, ev] =
      step config0 (run config0 session0 [Transcript (js ''hi'') False True]) ev" for ev
    by (simp add: run_def)
  have ne: "js ''there'' \<noteq> []" by (simp add: js_def)
  show ?thesis
    unfolding two after_speech_final using ne
    by (simp add: onTranscript_def Let_def trim_there resetIdle_def config0_def session0_def
        safeResolve_def)
qed

text \<open>
  \<^bold>\<open>C5.\<close> The code at a session in which \<^verbatim>\<open>"hello"\<close> was committed by a final message
  and the socket closes before any resolution: the handler of \<^verbatim>\<open>Close\<close> resolves with
  \<^verbatim>\<open>finalTranscript\<close>, which is only ever assigned together with a resolution, so the
  session resolves with the empty string and not with the committed \<^verbatim>\<open>"hello"\<close>.
\<close>

theorem close_resolves_empty:
  "committed (run config0 session0 [Transcript (js ''hello'') True False]) = js ''hello'' \<and>
   \<not> settled (run config0 session0 [Transcript (js ''hello'') True False]) \<and>
   outcomes (run config0 session0 [Transcript (js ''hello'') True False, Close]) = [Resolved []]"
  using js_nonempty [of "CHR ''h''" "''ello''"]
  by (simp add: run_def onTranscript_def Let_def trim_hello resetIdle_def config0_def session0_def
      safeResolve_def onClose_def)

section \<open>Properties of apply and visualize\<close>

lemma liveTypes_setDecorations [simp]: "liveTypes (setDecorations ty ds ed) = liveTypes ed"
  by (force simp: liveTypes_def setDecorations_def split: if_splits)

lemma liveTypes_dispose [simp]: "liveTypes (dispose ty ed) = liveTypes ed - {ty}"
  by (force simp: liveTypes_def dispose_def)

lemma setDecorations_fields [simp]:
  "nextType (setDecorations ty ds ed) = nextType ed"
  "timers (setDecorations ty ds ed) = timers ed"
  "now (setDecorations ty ds ed) = now ed"
  "docText (setDecorations ty ds ed) = docText ed"
  by (simp_all add: setDecorations_def)

lemma dispose_fields [simp]:
  "nextType (dispose ty ed) = nextType ed"
  "timers (dispose ty ed) = timers ed"
  "now (dispose ty ed) = now ed"
  by (simp_all add: dispose_def)

lemma foldl_setDecorations:
  "liveTypes (foldl (\<lambda>e ty. setDecorations ty [] e) ed tys) = liveTypes ed \<and>
   nextType (foldl (\<lambda>e ty. setDecorations ty [] e) ed tys) = nextType ed"
  by (induction tys arbitrary: ed) simp_all

lemma foldl_dispose:
  "liveTypes (foldl (\<lambda>e ty. dispose ty e) ed tys) = liveTypes ed - set tys \<and>
   nextType (foldl (\<lambda>e ty. dispose ty e) ed tys) = nextType ed"
  by (induction tys arbitrary: ed) auto

lemma disposeAll_live:
  "liveTypes (disposeAll tys ed) = liveTypes ed - set tys \<and>
   nextType (disposeAll tys ed) = nextType ed"
  by (simp add: disposeAll_def foldl_dispose foldl_setDecorations)

lemma foldl_disposeAll:
  "liveTypes (foldl (\<lambda>e (at, tys). disposeAll tys e) ed due) =
     liveTypes ed - (\<Union>(at, tys) \<in> set due. set tys) \<and>
   nextType (foldl (\<lambda>e (at, tys). disposeAll tys e) ed due) = nextType ed"
  by (induction due arbitrary: ed) (auto simp: disposeAll_live)

lemma advance_live:
  "liveTypes (advance d ed) =
     liveTypes ed - (\<Union>(at, tys) \<in> {p \<in> set (timers ed). fst p \<le> now ed + d}. set tys)"
  by (auto simp: advance_def Let_def liveTypes_def [of "_\<lparr>timers := _, now := _\<rparr>"]
        foldl_disposeAll [unfolded liveTypes_def] liveTypes_def)

lemma advance_fields:
  "nextType (advance d ed) = nextType ed"
  "now (advance d ed) = now ed + d"
  "set (timers (advance d ed)) = {p \<in> set (timers ed). \<not> fst p \<le> now ed + d}"
  by (auto simp: advance_def Let_def foldl_disposeAll)

lemma create_fst [simp]: "fst (createTextEditorDecorationType ed) = nextType ed"
  by (simp add: createTextEditorDecorationType_def)

lemma create_snd [simp]:
  "liveTypes (snd (createTextEditorDecorationType ed)) = insert (nextType ed) (liveTypes ed)"
  "nextType (snd (createTextEditorDecorationType ed)) = nextType ed + 1"
  "timers (snd (createTextEditorDecorationType ed)) = timers ed"
  "now (snd (createTextEditorDecorationType ed)) = now ed"
  by (simp_all add: createTextEditorDecorationType_def liveTypes_def)

lemma setTimeout_fields [simp]:
  "liveTypes (setTimeout tys ms ed) = liveTypes ed"
  "nextType (setTimeout tys ms ed) = nextType ed"
  "timers (setTimeout tys ms ed) = timers ed @ [(now ed + ms, tys)]"
  "now (setTimeout tys ms ed) = now ed"
  by (simp_all add: setTimeout_def liveTypes_def)

lemma docText_update_fields [simp]:
  "liveTypes (ed\<lparr>docText := t\<rparr>) = liveTypes ed"
  by (simp add: liveTypes_def)

lemma apply_effect:
  assumes "replaceDocumentWithHighlight ed newText = Some ed'"
  shows "liveTypes ed' = liveTypes ed \<union> {nextType ed, nextType ed + 1, nextType ed + 2}"
    and "nextType ed' = nextType ed + 3"
    and "timers ed' = timers ed @ [(now ed + DISPOSE_MS, [nextType ed, nextType ed + 1, nextType ed + 2])]"
    and "now ed' = now ed"
  using assms
  by (auto simp: replaceDocumentWithHighlight_def Let_def case_prod_beta lineCount_def
        docLines_nonempty split: option.splits)

lemma wellFormed_editor0: "wellFormed (editor0 t)"
  by (simp add: wellFormed_def editor0_def liveTypes_def)

lemma wellFormedD:
  assumes "wellFormed ed"
  shows "k \<in> liveTypes ed \<Longrightarrow> k < nextType ed"
    and "(at, tys) \<in> set (timers ed) \<Longrightarrow> k \<in> set tys \<Longrightarrow> k < nextType ed"
  using assms by (auto simp: wellFormed_def)

lemma wellFormedI:
  assumes "\<And>k. k \<in> liveTypes ed \<Longrightarrow> k < nextType ed"
    and "\<And>at tys k. (at, tys) \<in> set (timers ed) \<Longrightarrow> k \<in> set tys \<Longrightarrow> k < nextType ed"
  shows "wellFormed ed"
  using assms by (auto simp: wellFormed_def)

lemma wellFormed_apply:
  assumes "wellFormed ed" "replaceDocumentWithHighlight ed newText = Some ed'"
  shows "wellFormed ed'"
proof (rule wellFormedI)
  fix k assume "k \<in> liveTypes ed'"
  then have "k \<in> liveTypes ed \<or> k = nextType ed \<or> k = nextType ed + 1 \<or> k = nextType ed + 2"
    unfolding apply_effect [OF assms(2)] by auto
  with wellFormedD(1) [OF assms(1), of k] show "k < nextType ed'"
    unfolding apply_effect [OF assms(2)] by auto
next
  fix at tys k assume "(at, tys) \<in> set (timers ed')" "k \<in> set tys"
  then have "((at, tys) \<in> set (timers ed) \<and> k \<in> set tys) \<or>
             k = nextType ed \<or> k = nextType ed + 1 \<or> k = nextType ed + 2"
    unfolding apply_effect [OF assms(2)] by auto
  with wellFormedD(2) [OF assms(1), of at tys k] show "k < nextType ed'"
    unfolding apply_effect [OF assms(2)] by auto
qed

lemma wellFormed_advance:
  assumes "wellFormed ed"
  shows "wellFormed (advance d ed)"
proof (rule wellFormedI)
  fix k assume "k \<in> liveTypes (advance d ed)"
  then have "k \<in> liveTypes ed" unfolding advance_live by simp
  with wellFormedD(1) [OF assms, of k] show "k < nextType (advance d ed)"
    by (simp add: advance_fields)
next
  fix at tys k assume "(at, tys) \<in> set (timers (advance d ed))" "k \<in> set tys"
  then have "(at, tys) \<in> set (timers ed)" "k \<in> set tys" unfolding advance_fields by simp_all
  with wellFormedD(2) [OF assms, of at tys k] show "k < nextType (advance d ed)"
    by (simp add: advance_fields)
qed

lemma wellFormed_act: "wellFormed ed \<Longrightarrow> act ed a = Some ed' \<Longrightarrow> wellFormed ed'"
  by (cases a) (auto intro: wellFormed_apply wellFormed_advance)

lemma wellFormed_acts: "wellFormed ed \<Longrightarrow> acts ed as = Some ed' \<Longrightarrow> wellFormed ed'"
proof (induction as arbitrary: ed)
  case Nil
  then show ?case by simp
next
  case (Cons a as)
  from Cons.prems(2) obtain ed1 where a: "act ed a = Some ed1" and rest: "acts ed1 as = Some ed'"
    by (auto split: option.splits)
  from wellFormed_act [OF Cons.prems(1) a] rest show ?case by (rule Cons.IH)
qed

lemma trackedD:
  assumes "tracked T due ed"
  shows "k \<in> T \<Longrightarrow> k < nextType ed"
    and "(at, tys) \<in> set (timers ed) \<Longrightarrow> k \<in> set tys \<Longrightarrow> k \<in> T \<Longrightarrow> at = due"
    and "now ed < due \<Longrightarrow> T \<subseteq> liveTypes ed"
    and "now ed < due \<Longrightarrow> \<exists>tys. (due, tys) \<in> set (timers ed) \<and> T \<subseteq> set tys"
    and "\<not> now ed < due \<Longrightarrow> T \<inter> liveTypes ed = {}"
proof -
  show "k \<in> T \<Longrightarrow> k < nextType ed" using assms by (simp add: tracked_def)
  show "(at, tys) \<in> set (timers ed) \<Longrightarrow> k \<in> set tys \<Longrightarrow> k \<in> T \<Longrightarrow> at = due"
    using assms unfolding tracked_def by fastforce
  show "now ed < due \<Longrightarrow> T \<subseteq> liveTypes ed" using assms by (simp add: tracked_def)
  show "now ed < due \<Longrightarrow> \<exists>tys. (due, tys) \<in> set (timers ed) \<and> T \<subseteq> set tys"
    using assms unfolding tracked_def by fastforce
  show "\<not> now ed < due \<Longrightarrow> T \<inter> liveTypes ed = {}" using assms by (simp add: tracked_def)
qed

lemma trackedI:
  assumes "\<And>k. k \<in> T \<Longrightarrow> k < nextType ed"
    and "\<And>at tys k. (at, tys) \<in> set (timers ed) \<Longrightarrow> k \<in> set tys \<Longrightarrow> k \<in> T \<Longrightarrow> at = due"
    and "now ed < due \<Longrightarrow> T \<subseteq> liveTypes ed"
    and "now ed < due \<Longrightarrow> \<exists>tys. (due, tys) \<in> set (timers ed) \<and> T \<subseteq> set tys"
    and "\<not> now ed < due \<Longrightarrow> T \<inter> liveTypes ed = {}"
  shows "tracked T due ed"
  unfolding tracked_def
proof (intro conjI)
  show "\<forall>k \<in> T. k < nextType ed" using assms(1) by blast
  show "\<forall>p \<in> set (timers ed). set (snd p) \<inter> T \<noteq> {} \<longrightarrow> fst p = due"
  proof (intro ballI impI)
    fix p assume p: "p \<in> set (timers ed)" and "set (snd p) \<inter> T \<noteq> {}"
    then obtain k where "k \<in> set (snd p)" "k \<in> T" by blast
    with p assms(2) [of "fst p" "snd p" k] show "fst p = due" by simp
  qed
  show "if now ed < due
        then T \<subseteq> liveTypes ed \<and> (\<exists>p \<in> set (timers ed). fst p = due \<and> T \<subseteq> set (snd p))
        else T \<inter> liveTypes ed = {}"
  proof (cases "now ed < due")
    case True
    from assms(4) [OF True] obtain tys where "(due, tys) \<in> set (timers ed)" "T \<subseteq> set tys"
      by blast
    then have "\<exists>p \<in> set (timers ed). fst p = due \<and> T \<subseteq> set (snd p)" by force
    with True assms(3) show ?thesis by simp
  next
    case False
    with assms(5) show ?thesis by simp
  qed
qed

lemma tracked_start:
  assumes "wellFormed ed" "replaceDocumentWithHighlight ed newText = Some ed1"
  shows "tracked {nextType ed, nextType ed + 1, nextType ed + 2} (now ed + DISPOSE_MS) ed1"
proof (rule trackedI)
  let ?T = "{nextType ed, nextType ed + 1, nextType ed + 2}"
  show "k < nextType ed1" if "k \<in> ?T" for k
    using that unfolding apply_effect [OF assms(2)] by auto
  show "at = now ed + DISPOSE_MS"
    if "(at, tys) \<in> set (timers ed1)" "k \<in> set tys" "k \<in> ?T" for at tys k
  proof (rule ccontr)
    assume "at \<noteq> now ed + DISPOSE_MS"
    with that(1) have "(at, tys) \<in> set (timers ed)"
      unfolding apply_effect [OF assms(2)] by auto
    from wellFormedD(2) [OF assms(1) this that(2)] that(3) show False by auto
  qed
  show "?T \<subseteq> liveTypes ed1" unfolding apply_effect [OF assms(2)] by auto
  show "\<exists>tys. (now ed + DISPOSE_MS, tys) \<in> set (timers ed1) \<and> ?T \<subseteq> set tys"
    unfolding apply_effect [OF assms(2)] by auto
  show "?T \<inter> liveTypes ed1 = {}" if "\<not> now ed1 < now ed + DISPOSE_MS"
    using that unfolding apply_effect [OF assms(2)] by (simp add: DISPOSE_MS_def)
qed

lemma tracked_apply:
  assumes "tracked T due ed" "replaceDocumentWithHighlight ed newText = Some ed'"
  shows "tracked T due ed'"
proof (rule trackedI)
  note eff = apply_effect [OF assms(2)]
  have fresh: "nextType ed \<notin> T" "nextType ed + 1 \<notin> T" "nextType ed + 2 \<notin> T"
    using trackedD(1) [OF assms(1)] by fastforce+
  show "k < nextType ed'" if "k \<in> T" for k
    using trackedD(1) [OF assms(1) that] by (simp add: eff)
  show "at = due" if "(at, tys) \<in> set (timers ed')" "k \<in> set tys" "k \<in> T" for at tys k
  proof -
    from that(1) have "(at, tys) \<in> set (timers ed) \<or>
        tys = [nextType ed, nextType ed + 1, nextType ed + 2]"
      by (auto simp: eff)
    then show ?thesis
    proof
      assume "(at, tys) \<in> set (timers ed)"
      from trackedD(2) [OF assms(1) this that(2,3)] show ?thesis .
    next
      assume "tys = [nextType ed, nextType ed + 1, nextType ed + 2]"
      with that(2,3) fresh show ?thesis by auto
    qed
  qed
  show "T \<subseteq> liveTypes ed'" if "now ed' < due"
    using trackedD(3) [OF assms(1)] that by (auto simp: eff)
  show "\<exists>tys. (due, tys) \<in> set (timers ed') \<and> T \<subseteq> set tys" if "now ed' < due"
    using trackedD(4) [OF assms(1)] that by (auto simp: eff)
  show "T \<inter> liveTypes ed' = {}" if "\<not> now ed' < due"
    using trackedD(5) [OF assms(1)] that fresh by (auto simp: eff)
qed

lemma tracked_advance:
  assumes "tracked T due ed"
  shows "tracked T due (advance d ed)"
proof (rule trackedI)
  show "k < nextType (advance d ed)" if "k \<in> T" for k
    using trackedD(1) [OF assms that] by (simp add: advance_fields)
  show "at = due"
    if "(at, tys) \<in> set (timers (advance d ed))" "k \<in> set tys" "k \<in> T" for at tys k
  proof -
    from that(1) have "(at, tys) \<in> set (timers ed)" by (simp add: advance_fields)
    from trackedD(2) [OF assms this that(2,3)] show ?thesis .
  qed
  show "T \<subseteq> liveTypes (advance d ed)" if lt: "now (advance d ed) < due"
  proof
    fix k assume k: "k \<in> T"
    from lt have early: "now ed + d < due" by (simp add: advance_fields)
    then have "now ed < due" by simp
    from trackedD(3) [OF assms this] k have live: "k \<in> liveTypes ed" by blast
    have "k \<notin> set tys" if "(at, tys) \<in> set (timers ed)" "at \<le> now ed + d" for at tys
    proof
      assume "k \<in> set tys"
      from trackedD(2) [OF assms that(1) this k] that(2) early show False by simp
    qed
    with live show "k \<in> liveTypes (advance d ed)" unfolding advance_live by fastforce
  qed
  show "\<exists>tys. (due, tys) \<in> set (timers (advance d ed)) \<and> T \<subseteq> set tys"
    if lt: "now (advance d ed) < due"
  proof -
    from lt have early: "now ed + d < due" by (simp add: advance_fields)
    then have "now ed < due" by simp
    from trackedD(4) [OF assms this] obtain tys where
      "(due, tys) \<in> set (timers ed)" "T \<subseteq> set tys" by blast
    with early show ?thesis by (auto simp: advance_fields)
  qed
  show "T \<inter> liveTypes (advance d ed) = {}" if ge: "\<not> now (advance d ed) < due"
  proof (cases "now ed < due")
    case True
    from trackedD(4) [OF assms True] obtain tys where
      p: "(due, tys) \<in> set (timers ed)" and sub: "T \<subseteq> set tys" by blast
    from ge have "due \<le> now ed + d" by (simp add: advance_fields)
    with p sub show ?thesis unfolding advance_live by fastforce
  next
    case False
    from trackedD(5) [OF assms False] show ?thesis unfolding advance_live by blast
  qed
qed

lemma tracked_act: "tracked T due ed \<Longrightarrow> act ed a = Some ed' \<Longrightarrow> tracked T due ed'"
  by (cases a) (auto intro: tracked_apply tracked_advance)

lemma tracked_acts: "tracked T due ed \<Longrightarrow> acts ed as = Some ed' \<Longrightarrow> tracked T due ed'"
proof (induction as arbitrary: ed)
  case Nil
  then show ?case by simp
next
  case (Cons a as)
  from Cons.prems(2) obtain ed1 where a: "act ed a = Some ed1" and rest: "acts ed1 as = Some ed'"
    by (auto split: option.splits)
  from tracked_act [OF Cons.prems(1) a] rest show ?case by (rule Cons.IH)
qed

text \<open>
  \<^bold>\<open>C8\<close>, amended. Time is counted in milliseconds on the clock of the editor, and a
  timeout fires when its due time is reached. Starting from a fresh editor, after any
  applies and any passing of time, an apply acquires three decoration types; whatever
  applies and passing of time follow, the three stay live as long as the dwell window of
  3500 ms of that apply has not elapsed, and none of them is live once it has. A later
  apply does not release them.
\<close>

theorem released_after_dwell_only:
  assumes "acts (editor0 text) pre = Some ed"
    and "replaceDocumentWithHighlight ed newText = Some ed1"
    and "acts ed1 post = Some ed2"
  shows "liveTypes ed1 = liveTypes ed \<union> {nextType ed, nextType ed + 1, nextType ed + 2} \<and>
         (now ed2 < now ed + DISPOSE_MS \<longrightarrow>
            {nextType ed, nextType ed + 1, nextType ed + 2} \<subseteq> liveTypes ed2) \<and>
         (now ed + DISPOSE_MS \<le> now ed2 \<longrightarrow>
            {nextType ed, nextType ed + 1, nextType ed + 2} \<inter> liveTypes ed2 = {})"
proof -
  have "wellFormed ed" using wellFormed_editor0 assms(1) by (rule wellFormed_acts)
  then have "tracked {nextType ed, nextType ed + 1, nextType ed + 2} (now ed + DISPOSE_MS) ed1"
    using assms(2) by (rule tracked_start)
  then have "tracked {nextType ed, nextType ed + 1, nextType ed + 2} (now ed + DISPOSE_MS) ed2"
    using assms(3) by (rule tracked_acts)
  then show ?thesis
    using apply_effect(1) [OF assms(2)] unfolding tracked_def by (auto split: if_splits)
qed

text \<open>The two applies of the example, evaluated step by step.\<close>

lemma js_a: "js ''a'' = [97]" by (simp add: js_def)

lemma js_ba: "js ''b\<newline>a'' = [98, 10, 97]" by (simp add: js_def)

lemma insert_example_spans: "spans [[97]] [[98], [97]] = ([(0, 0)], [])"
  by code_simp

lemma insert_example_loop: "movedLoop [97] [[98], [97]] [0] [(0, 0)] [] = Some []"
  by (simp add: slice_def sliceIdx_def isSpace_def indexOf_def)

lemma insert_example:
  "computeChangeHints [97] [98, 10, 97] = Some \<lparr>added = [(0, 0)], removed = [], moved = []\<rparr>"
proof -
  have "splitLines [97] = [[97]]" "splitLines [98, 10, 97] = [[98], [97]]"
    "oldOffsets [97] = [0]"
    by (simp_all add: oldOffsets_def)
  then show ?thesis
    by (simp add: computeChangeHints_def insert_example_spans insert_example_loop
        del: movedLoop.simps splitLines.simps)
qed

lemma first_apply:
  "replaceDocumentWithHighlight (editor0 [97]) [98, 10, 97] = Some firstApplied"
  by (simp add: replaceDocumentWithHighlight_def editor0_def insert_example Let_def
      lineCount_def lineEnd_def createTextEditorDecorationType_def setDecorations_def
      setTimeout_def DISPOSE_MS_def firstApplied_def)

lemma first_advance: "advance 1000 firstApplied = firstApplied\<lparr>now := 1000\<rparr>"
  by (simp add: advance_def firstApplied_def Let_def)

lemma second_apply:
  "replaceDocumentWithHighlight (firstApplied\<lparr>now := 1000\<rparr>) [98, 10, 97] = Some secondApplied"
  by (simp add: replaceDocumentWithHighlight_def firstApplied_def computeChangeHints_same Let_def
      lineCount_def lineEnd_def createTextEditorDecorationType_def setDecorations_def
      setTimeout_def DISPOSE_MS_def secondApplied_def)

lemma two_applies:
  "acts (editor0 (js ''a'')) [Apply (js ''b\<newline>a''), Advance 1000, Apply (js ''b\<newline>a'')] =
     Some secondApplied"
  by (simp add: js_a js_ba first_apply first_advance second_apply)

text \<open>
  \<^bold>\<open>C8\<close>, as stated, fails. \<^verbatim>\<open>"a"\<close> is replaced by \<^verbatim>\<open>"b\na"\<close> at time 0, which
  decorates line 0 as added; the same text is applied again at time 1000, before the
  first dwell window has elapsed. When the second call completes the decoration of the
  first call is still there, on its type 0.
\<close>

theorem second_apply_counterexample:
  "map_option decoTypes
     (acts (editor0 (js ''a'')) [Apply (js ''b\<newline>a''), Advance 1000, Apply (js ''b\<newline>a'')]) =
   Some [(0, [\<lparr>fromLine = 0, fromChar = 0, toLine = 0, toChar = 1, after = NoLabel\<rparr>]),
         (1, []), (2, []), (3, []), (4, []), (5, [])] \<and>
   map_option now
     (acts (editor0 (js ''a'')) [Apply (js ''b\<newline>a''), Advance 1000, Apply (js ''b\<newline>a'')]) =
   Some 1000"
  unfolding two_applies by (simp add: secondApplied_def)

text \<open>\<^bold>\<open>C8\<close>, amended, at the two applies of the example: at time 1000, after the second
  apply, the three types of the first are live.\<close>

theorem released_after_dwell_only_witness:
  "acts (editor0 (js ''a'')) [] = Some (editor0 (js ''a'')) \<and>
   replaceDocumentWithHighlight (editor0 (js ''a'')) (js ''b\<newline>a'') = Some firstApplied \<and>
   acts firstApplied [Advance 1000, Apply (js ''b\<newline>a'')] = Some secondApplied \<and>
   now secondApplied < now (editor0 (js ''a'')) + DISPOSE_MS \<and>
   {0, 1, 2} \<subseteq> liveTypes secondApplied"
proof -
  have a: "acts (editor0 (js ''a'')) [] = Some (editor0 (js ''a''))" by simp
  have b: "replaceDocumentWithHighlight (editor0 (js ''a'')) (js ''b\<newline>a'') = Some firstApplied"
    by (simp add: js_a js_ba first_apply)
  have c: "acts firstApplied [Advance 1000, Apply (js ''b\<newline>a'')] = Some secondApplied"
    by (simp add: js_ba first_advance second_apply)
  have d: "now secondApplied < now (editor0 (js ''a'')) + DISPOSE_MS"
    by (simp add: secondApplied_def editor0_def DISPOSE_MS_def)
  from released_after_dwell_only [OF a b c] d
  have "{nextType (editor0 (js ''a'')), nextType (editor0 (js ''a'')) + 1,
         nextType (editor0 (js ''a'')) + 2} \<subseteq> liveTypes secondApplied" by blast
  then have "{0, 1, 2} \<subseteq> liveTypes secondApplied" by (simp add: editor0_def numeral_2_eq_2)
  with a b c d show ?thesis by blast
qed

end
